theory Spec2Isabelle
  imports Complex_Main
begin

section \<open>Document values and the errors Python raises\<close>

text \<open>
  A loaded JSON document is a Python object built from \<open>None\<close>, \<open>bool\<close>, \<open>int\<close>,
  \<open>float\<close>, \<open>str\<close>, \<open>list\<close> and \<open>dict\<close> with string keys.  A \<open>dict\<close> keeps its
  insertion order, so it is an association list (keys are meant to be distinct).
\<close>

datatype json =
    JNull
  | JBool bool
  | JInt int
  | JFloat real
  | JStr string
  | JList "json list"
  | JDict "(string \<times> json) list"

datatype error =
    TypeError
  | KeyError
  | IndexError
  | ValueError
  | RuntimeError
  | RecursionError

text \<open>
  \<open>for v in json\<close> / \<open>iter(json)\<close>: a list gives its elements, a string its
  characters (each a one-character string), a dict its keys; every other value raises
  \<open>TypeError\<close>.
\<close>

fun py_iter :: "json \<Rightarrow> error + json list" where
  "py_iter (JList xs) = Inr xs"
| "py_iter (JStr s) = Inr (map (\<lambda>c. JStr [c]) s)"
| "py_iter (JDict d) = Inr (map (\<lambda>kv. JStr (fst kv)) d)"
| "py_iter v = Inl TypeError"

text \<open>The keys of a specification: a string name or an integer index.\<close>

datatype key = Name string | Index int

text \<open>Python sequence indexing: a negative index counts from the end.\<close>

definition py_index :: "'a list \<Rightarrow> int \<Rightarrow> error + 'a" where
  "py_index xs i =
     (if 0 \<le> i \<and> i < int (length xs) then Inr (xs ! nat i)
      else if i < 0 \<and> - int (length xs) \<le> i then Inr (xs ! nat (int (length xs) + i))
      else Inl IndexError)"

text \<open>
  \<open>json[name]\<close>.  A dict raises \<open>KeyError\<close> for every key it does not hold (its keys are
  strings, so for every integer); a list or a string indexed by a string raises
  \<open>TypeError\<close>, and so does indexing a value that is not subscriptable.
\<close>

fun getitem :: "json \<Rightarrow> key \<Rightarrow> error + json" where
  "getitem (JDict d) (Name k) = (case map_of d k of Some v \<Rightarrow> Inr v | None \<Rightarrow> Inl KeyError)"
| "getitem (JDict d) (Index i) = Inl KeyError"
| "getitem (JList xs) (Index i) = py_index xs i"
| "getitem (JList xs) (Name k) = Inl TypeError"
| "getitem (JStr s) (Index i) = map_sum id (\<lambda>c. JStr [c]) (py_index s i)"
| "getitem (JStr s) (Name k) = Inl TypeError"
| "getitem v k = Inl TypeError"

section \<open>The tokens\<close>

datatype token = KEEP_ALL | FLATTEN | UNPACK

text \<open>
  \<open>Token.flatten\<close>:
  \<open>sum([cls.flatten(elt) for elt in lists], start=[]) if type(lists) is list else [lists]\<close>.
  The result is a Python list, given here by its elements.
\<close>

fun flatten :: "json \<Rightarrow> json list" where
  "flatten (JList xs) = concat (map flatten xs)"
| "flatten v = [v]"

text \<open>
  \<open>sum(lists, start=[])\<close> adds the items to the accumulator one by one; \<open>list + item\<close>
  raises \<open>TypeError\<close> (here \<open>None\<close>) unless the item is a list.
\<close>

fun sum_lists :: "json list \<Rightarrow> json list \<Rightarrow> json list option" where
  "sum_lists [] acc = Some acc"
| "sum_lists (JList xs # items) acc = sum_lists items (acc @ xs)"
| "sum_lists (v # items) acc = None"

text \<open>
  \<open>Token.unpack\<close>: \<open>try: return sum(lists, start=[]) except TypeError: return lists\<close>.
  The \<open>TypeError\<close> is that of iterating \<open>lists\<close> or that of an addition.
\<close>

definition unpack :: "json \<Rightarrow> json" where
  "unpack v =
     (case py_iter v of
        Inl e \<Rightarrow> v
      | Inr items \<Rightarrow> (case sum_lists items [] of None \<Rightarrow> v | Some acc \<Rightarrow> JList acc))"

section \<open>Specifier.apply\<close>

datatype step = Token token | Key key

text \<open>A list comprehension over calls that may raise: the first error ends it.\<close>

fun collect :: "(error + 'a) list \<Rightarrow> error + 'a list" where
  "collect [] = Inr []"
| "collect (Inl e # rs) = Inl e"
| "collect (Inr v # rs) = (case collect rs of Inl e \<Rightarrow> Inl e | Inr vs \<Rightarrow> Inr (v # vs))"

definition is_nonempty_str :: "json \<Rightarrow> bool" where
  "is_nonempty_str v = (case v of JStr (c # cs) \<Rightarrow> True | _ \<Rightarrow> False)"

text \<open>
  \<open>Specifier(tuple).apply(json)\<close>.  A token reshapes what the rest of the tuple gives;
  a key indexes, and a \<open>TypeError\<close> from the indexing (and only that error) makes the
  whole tuple be applied to each \<open>v in json\<close>.

  One case of the source does not return: a string key on a non-empty string.  Indexing
  the string raises \<open>TypeError\<close>, the first \<open>v\<close> is a one-character string, and applying
  the same tuple to it repeats the same step for ever; the interpreter ends this with
  \<open>RecursionError\<close>, which nothing catches.
\<close>

function Specifier_apply :: "step list \<Rightarrow> json \<Rightarrow> error + json" where
  "Specifier_apply [] json = Inr json"
| "Specifier_apply (Token KEEP_ALL # rest) json =
     (case py_iter json of
        Inl e \<Rightarrow> Inl e
      | Inr vs \<Rightarrow> map_sum id JList (collect (map (Specifier_apply rest) vs)))"
| "Specifier_apply (Token FLATTEN # rest) json =
     (case Specifier_apply rest json of
        Inl e \<Rightarrow> Inl e
      | Inr v \<Rightarrow> Inr (JList (flatten v)))"
| "Specifier_apply (Token UNPACK # rest) json =
     (case Specifier_apply rest json of
        Inl e \<Rightarrow> Inl e
      | Inr v \<Rightarrow> Inr (unpack v))"
| "Specifier_apply (Key name # rest) json =
     (case getitem json name of
        Inr v \<Rightarrow> (if rest = [] then Inr v else Specifier_apply rest v)
      | Inl e \<Rightarrow>
          if e \<noteq> TypeError then Inl e
          else if is_nonempty_str json then Inl RecursionError
          else (case py_iter json of
                  Inl e' \<Rightarrow> Inl e'
                | Inr vs \<Rightarrow> map_sum id JList (collect (map (Specifier_apply (Key name # rest)) vs))))"
  by pat_completeness auto

termination Specifier_apply
proof (relation "measures [\<lambda>(spec, json). length spec, \<lambda>(spec, json). size json]")
  fix name :: key and rest :: "step list" and json :: json and e :: error
    and vs :: "json list" and v :: json
  assume a: "getitem json name = Inl e" "\<not> e \<noteq> TypeError" "\<not> is_nonempty_str json"
    "py_iter json = Inr vs" "v \<in> set vs"
  have "size v < size json"
  proof (cases json)
    case (JList xs)
    with a have "v \<in> set xs" by simp
    then have "size v \<le> size_list size xs" by (simp add: size_list_estimation')
    with JList show ?thesis by simp
  next
    case (JStr s)
    with a show ?thesis by (cases s) (simp_all add: is_nonempty_str_def)
  next
    case (JDict d)
    with a show ?thesis by (cases name) (simp_all split: option.splits)
  qed (use a in simp_all)
  then show "((Key name # rest, v), (Key name # rest, json))
      \<in> measures [\<lambda>(spec, json). length spec, \<lambda>(spec, json). size json]"
    by simp
qed auto

section \<open>JsonProcessor.conditional_product\<close>

text \<open>
  \<open>JsonProcessor.isiterable\<close>: whether \<open>iter(val)\<close> succeeds.
\<close>

definition isiterable :: "json \<Rightarrow> bool" where
  "isiterable val = (case py_iter val of Inl e \<Rightarrow> False | Inr xs \<Rightarrow> True)"

text \<open>The truth value Python gives a value in \<open>if pred\<close>.\<close>

fun truthy :: "json \<Rightarrow> bool" where
  "truthy JNull = False"
| "truthy (JBool b) = b"
| "truthy (JInt i) = (i \<noteq> 0)"
| "truthy (JFloat r) = (r \<noteq> 0)"
| "truthy (JStr s) = (s \<noteq> [])"
| "truthy (JList xs) = (xs \<noteq> [])"
| "truthy (JDict d) = (d \<noteq> [])"

text \<open>
  An entry of the list \<open>iters\<close>: at a selected position an iterator over the cell, given
  by the elements it has not produced yet (the cell is never mutated); at any other
  position the cell itself.
\<close>

datatype slot = Iter "json list" | Held json

text \<open>
  \<open>next(it)\<close>: an exhausted iterator raises \<open>StopIteration\<close>, a value that is no
  iterator raises \<open>TypeError\<close>; otherwise the iterator advances.
\<close>

datatype 'a next_result = Next 'a slot | StopIteration | NoIterator

fun py_next :: "slot \<Rightarrow> json next_result" where
  "py_next (Iter (x # xs)) = Next x (Iter xs)"
| "py_next (Iter []) = StopIteration"
| "py_next (Held v) = NoIterator"

text \<open>
  \<open>iters = [iter(val) if pred else val for pred, val in zip(key, vals)]\<close>
\<close>

definition make_iters :: "bool list \<Rightarrow> json list \<Rightarrow> error + slot list" where
  "make_iters key vals =
     collect (map (\<lambda>(pred, val). if pred then map_sum id Iter (py_iter val) else Inr (Held val))
                  (zip key vals))"

text \<open>
  \<open>curr = [next(it) if pred else it for pred, it in zip(key, iters)]\<close>, which also
  advances the iterators it reads.  The result is the pair of \<open>iters\<close> and \<open>curr\<close>.
  A \<open>StopIteration\<close> that leaves the body of a generator reaches its consumer as
  \<open>RuntimeError\<close>.  Both comprehensions read the same \<open>key\<close>, so the entry of an
  unselected position is a cell and never an iterator.
\<close>

fun make_curr :: "(bool \<times> slot) list \<Rightarrow> error + (slot list \<times> json list)" where
  "make_curr [] = Inr ([], [])"
| "make_curr ((pred, it) # rest) =
     (if pred then
        (case py_next it of
           StopIteration \<Rightarrow> Inl RuntimeError
         | NoIterator \<Rightarrow> Inl TypeError
         | Next x it' \<Rightarrow>
             (case make_curr rest of
                Inl e \<Rightarrow> Inl e
              | Inr (iters, cur) \<Rightarrow> Inr (it' # iters, x # cur)))
      else
        (case it of
           Held v \<Rightarrow>
             (case make_curr rest of
                Inl e \<Rightarrow> Inl e
              | Inr (iters, cur) \<Rightarrow> Inr (it # iters, v # cur))
         | Iter xs \<Rightarrow> Inl TypeError))"

text \<open>
  The \<open>for ... else\<close> loop over \<open>zip(reversed(key), range(len(vals)-1, -1, -1))\<close>:
  it ends by \<open>break\<close> with the next combination in \<open>curr\<close>, or runs to its end
  (every selected iterator was exhausted and has been reset), or raises.
\<close>

datatype for_result = Break "slot list" "json list" | NoBreak "slot list" "json list" | Raise error

fun for_loop :: "json list \<Rightarrow> (bool \<times> nat) list \<Rightarrow> slot list \<Rightarrow> json list \<Rightarrow> for_result" where
  "for_loop vals [] iters cur = NoBreak iters cur"
| "for_loop vals ((pred, idx) # rest) iters cur =
     (if \<not> pred then for_loop vals rest iters cur
      else if length iters \<le> idx then Raise IndexError
      else
        (case py_next (iters ! idx) of
           Next x it' \<Rightarrow> Break (iters[idx := it']) (cur[idx := x])
         | NoIterator \<Rightarrow> Raise TypeError
         | StopIteration \<Rightarrow>
             (case py_iter (vals ! idx) of
                Inl e \<Rightarrow> Raise e
              | Inr xs \<Rightarrow>
                  (case py_next (Iter xs) of
                     Next x it' \<Rightarrow> for_loop vals rest (iters[idx := it']) (cur[idx := x])
                   | StopIteration \<Rightarrow> Raise RuntimeError
                   | NoIterator \<Rightarrow> Raise TypeError))))"

text \<open>
  What consuming a generator to its end gives: the tuples it yields, in order, and the
  error it ends with when it does not end normally.
\<close>

type_synonym rows = "json list list \<times> error option"

text \<open>
  The \<open>while True\<close> loop of \<open>_curr_gen\<close>: yield \<open>tuple(curr)\<close>, then run the \<open>for\<close>
  loop.  The result is \<open>None\<close> when the loop never ends.
\<close>

partial_function (option) while_loop ::
  "json list \<Rightarrow> bool list \<Rightarrow> slot list \<Rightarrow> json list \<Rightarrow> rows option" where
  "while_loop vals key iters cur =
     (case for_loop vals (zip (rev key) (rev [0..<length vals])) iters cur of
        NoBreak iters' cur' \<Rightarrow> Some ([cur], None)
      | Raise e \<Rightarrow> Some ([cur], Some e)
      | Break iters' cur' \<Rightarrow>
          Option.bind (while_loop vals key iters' cur') (\<lambda>(rs, e). Some (cur # rs, e)))"

text \<open>\<open>JsonProcessor._curr_gen(vals, key)\<close>, consumed to its end.\<close>

definition curr_gen :: "json list \<Rightarrow> bool list \<Rightarrow> rows option" where
  "curr_gen vals key =
     (case make_iters key vals of
        Inl e \<Rightarrow> Some ([], Some e)
      | Inr iters \<Rightarrow>
          (case make_curr (zip key iters) of
             Inl e \<Rightarrow> Some ([], Some e)
           | Inr (iters', cur) \<Rightarrow> while_loop vals key iters' cur))"

text \<open>
  The \<open>key\<close> argument of \<open>conditional_product\<close>: a callable, or any other object
  (\<open>None\<close>, the default, is \<open>Object JNull\<close>).  A callable gives one truth value for
  each cell; it is taken to return without raising.
\<close>

datatype selector = Callable "json \<Rightarrow> bool" | Object json

text \<open>
  \<open>JsonProcessor.conditional_product(vals, key)\<close>.  \<open>Inl\<close> is an error raised by the
  call itself; \<open>Inr\<close> is the generator it returns, given by what consuming it produces.
  For a callable the source calls itself with \<open>map(key, vals)\<close>, an iterable that is not
  callable, and so reaches \<open>_curr_gen\<close> in the next call.
\<close>

fun conditional_product :: "json list \<Rightarrow> selector \<Rightarrow> error + rows option" where
  "conditional_product vals (Object JNull) = Inr (curr_gen vals (map isiterable vals))"
| "conditional_product vals (Callable f) = Inr (curr_gen vals (map f vals))"
| "conditional_product vals (Object k) =
     (case py_iter k of
        Inr ms \<Rightarrow> Inr (curr_gen vals (map truthy ms))
      | Inl e \<Rightarrow> Inl ValueError)"

declare while_loop.simps [code]

section \<open>Reference notions used in the statements\<close>

text \<open>\<open>type(v) is list\<close>: the value is a Sequence.\<close>

definition is_list :: "json \<Rightarrow> bool" where
  "is_list v = (case v of JList xs \<Rightarrow> True | _ \<Rightarrow> False)"

text \<open>
  The leaves of a forest of documents in depth-first document order, by an explicit
  stack: a Sequence on top of the stack is replaced by its elements, any other value is
  the next leaf.
\<close>

function (sequential) leaves :: "json list \<Rightarrow> json list" where
  "leaves [] = []"
| "leaves (JList xs # stack) = leaves (xs @ stack)"
| "leaves (v # stack) = v # leaves stack"
  by pat_completeness auto
termination
  by (relation "measure (size_list size)") auto

text \<open>
  Indexing a document by a list of keys, one after the other; the first key that
  cannot be applied gives its error.
\<close>

fun follow :: "key list \<Rightarrow> json \<Rightarrow> error + json" where
  "follow [] doc = Inr doc"
| "follow (k # ks) doc = (case getitem doc k of Inl e \<Rightarrow> Inl e | Inr v \<Rightarrow> follow ks v)"

section \<open>The cartesian product that the generator is compared with\<close>

text \<open>
  The elements a selected cell is iterated over (none when the cell is not iterable),
  and the axis a cell contributes to the product: its elements when it is selected,
  the cell alone when it is not.  The reference enumeration is \<open>product_lists\<close> of the
  axes: the n-ary cartesian product in which the first axis is the most significant
  and the last one varies fastest.
\<close>

definition items :: "json \<Rightarrow> json list" where
  "items val = (case py_iter val of Inl e \<Rightarrow> [] | Inr xs \<Rightarrow> xs)"

definition axis :: "bool \<Rightarrow> json \<Rightarrow> json list" where
  "axis pred val = (if pred then items val else [val])"

section \<open>The odometer, position by position\<close>

text \<open>
  For the proofs, the four lists \<open>key\<close>, \<open>vals\<close>, \<open>iters\<close> and \<open>curr\<close> are read as one
  list of positions, last position first.  \<open>adv\<close> is the \<open>for\<close> loop on that list:
  \<open>Some (True, _)\<close> for \<open>break\<close>, \<open>Some (False, _)\<close> for a loop that ran to its end, \<open>None\<close>
  for an error.
\<close>

datatype digit = Digit (d_pred: bool) (d_val: json) (d_slot: slot) (d_cur: json)

fun adv :: "digit list \<Rightarrow> (bool \<times> digit list) option" where
  "adv [] = Some (False, [])"
| "adv (Digit p v it c # ds) =
    (if \<not> p then map_option (\<lambda>(b, ds'). (b, Digit p v it c # ds')) (adv ds)
     else
       (case py_next it of
          Next x it' \<Rightarrow> Some (True, Digit p v it' x # ds)
        | NoIterator \<Rightarrow> None
        | StopIteration \<Rightarrow>
            (case py_iter v of
               Inl e \<Rightarrow> None
             | Inr xs \<Rightarrow>
                 (case py_next (Iter xs) of
                    Next x it' \<Rightarrow> map_option (\<lambda>(b, ds'). (b, Digit p v it' x # ds')) (adv ds)
                  | StopIteration \<Rightarrow> None
                  | NoIterator \<Rightarrow> None))))"

text \<open>
  The elements an iterator has yet to give, and the rows still to come from a state
  (the current row first), written last position first.
\<close>

definition rest_of :: "digit \<Rightarrow> json list" where
  "rest_of d = (case d_slot d of Iter r \<Rightarrow> r | Held v \<Rightarrow> [])"

definition axis_of :: "digit \<Rightarrow> json list" where
  "axis_of d = axis (d_pred d) (d_val d)"

fun remaining :: "digit list \<Rightarrow> json list list" where
  "remaining [] = [[]]"
| "remaining (d # ds) =
     map (\<lambda>x. x # map d_cur ds) (d_cur d # rest_of d)
     @ concat (map (\<lambda>pre. map (\<lambda>x. x # pre) (axis_of d)) (tl (remaining ds)))"

text \<open>The cartesian product of axes given last axis first, its rows written likewise.\<close>

fun rprod :: "'a list list \<Rightarrow> 'a list list" where
  "rprod [] = [[]]"
| "rprod (xs # xss) = concat (map (\<lambda>pre. map (\<lambda>x. x # pre) xs) (rprod xss))"

text \<open>
  A position of a well-formed state: at a selected position the iterator runs over the
  cell and \<open>curr\<close> holds the element it gave last; elsewhere both entries are the cell.
  \<open>init\<close> is the position after a reset, \<open>start\<close> the position the generator begins with.
\<close>

definition good :: "digit \<Rightarrow> bool" where
  "good d =
     (if d_pred d
      then (\<exists>seen r. py_iter (d_val d) = Inr (seen @ d_cur d # r) \<and> d_slot d = Iter r)
      else d_slot d = Held (d_val d) \<and> d_cur d = d_val d)"

definition init :: "digit \<Rightarrow> digit" where
  "init d =
     (if d_pred d then Digit True (d_val d) (Iter (tl (items (d_val d)))) (hd (items (d_val d)))
      else d)"

definition start :: "bool \<Rightarrow> json \<Rightarrow> digit" where
  "start p v =
     (if p then Digit True v (Iter (tl (items v))) (hd (items v)) else Digit False v (Held v) v)"


section \<open>The tokens FLATTEN and UNPACK\<close>

lemma leaves_concat: "leaves stack = concat (map flatten stack)"
  by (induction stack rule: leaves.induct) simp_all

lemma flatten_no_list: "e \<in> set (flatten v) \<Longrightarrow> \<not> is_list e"
  by (induction v arbitrary: e rule: flatten.induct) (auto simp: is_list_def)

text \<open>
  C3.  \<open>flatten\<close> satisfies the reference equations: \<open>[v]\<close> when \<open>v\<close> is not a
  Sequence, and otherwise the concatenation of the flattened elements in order.  So no
  element of the result is a Sequence, and the result is the list of the non-Sequence
  leaves of \<open>v\<close> in depth-first document order (a Mapping is a leaf and is not looked
  into).
\<close>

theorem flatten_collapses:
  "flatten (JList xs) = concat (map flatten xs)
   \<and> (\<not> is_list v \<longrightarrow> flatten v = [v])
   \<and> (\<forall>e \<in> set (flatten v). \<not> is_list e)
   \<and> flatten v = leaves [v]"
  by (cases v) (auto simp: is_list_def leaves_concat dest: flatten_no_list)

theorem flatten_collapses_witness:
  "flatten (JList [JList [JInt 1, JInt 2], JList [JList [JInt 3], JDict [(''a'', JList [])]]])
     = [JInt 1, JInt 2, JInt 3, JDict [(''a'', JList [])]]
   \<and> \<not> is_list (JDict [(''a'', JList [])])
   \<and> flatten (JDict [(''a'', JList [])]) = [JDict [(''a'', JList [])]]
   \<and> leaves [JList [JList [JInt 1, JInt 2], JList [JList [JInt 3], JDict [(''a'', JList [])]]]]
     = [JInt 1, JInt 2, JInt 3, JDict [(''a'', JList [])]]
   \<and> list_all (\<lambda>e. \<not> is_list e)
        (flatten (JList [JList [JInt 1, JInt 2], JList [JList [JInt 3], JDict [(''a'', JList [])]]]))"
  using flatten_collapses
    [of "[JList [JInt 1, JInt 2], JList [JList [JInt 3], JDict [(''a'', JList [])]]]"
        "JList [JList [JInt 1, JInt 2], JList [JList [JInt 3], JDict [(''a'', JList [])]]]"]
    flatten_collapses [of "[]" "JDict [(''a'', JList [])]"]
  by (simp add: is_list_def)

lemma sum_lists_all: "sum_lists (map JList xss) acc = Some (acc @ concat xss)"
  by (induction xss arbitrary: acc) simp_all

lemma sum_lists_fail: "\<exists>x\<in>set xs. \<not> is_list x \<Longrightarrow> sum_lists xs acc = None"
  by (induction xs acc rule: sum_lists.induct) (auto simp: is_list_def)

text \<open>
  C4.  On a Sequence all of whose elements are Sequences, \<open>unpack\<close> concatenates the
  elements (the two outermost layers become one, deeper layers stay); on a Sequence
  with an element that is not a Sequence it returns its argument unchanged.
\<close>

theorem unpack_sequence:
  "unpack (JList (map JList xss)) = JList (concat xss)
   \<and> ((\<exists>x\<in>set xs. \<not> is_list x) \<longrightarrow> unpack (JList xs) = JList xs)"
  by (simp add: unpack_def sum_lists_all sum_lists_fail)

theorem unpack_sequence_witness:
  "unpack (JList [JList [JInt 1, JInt 2], JList [JList [JInt 3], JList [JInt 4]]])
     = JList [JInt 1, JInt 2, JList [JInt 3], JList [JInt 4]]
   \<and> \<not> is_list (JInt 3)
   \<and> unpack (JList [JList [JInt 1, JInt 2], JInt 3]) = JList [JList [JInt 1, JInt 2], JInt 3]"
  using unpack_sequence
    [of "[[JInt 1, JInt 2], [JList [JInt 3], JList [JInt 4]]]" "[JList [JInt 1, JInt 2], JInt 3]"]
  by (simp add: is_list_def)

text \<open>
  C9 as stated fails: iterating an empty Mapping or an empty string raises nothing and
  gives no item, so \<open>sum\<close> returns its start value \<open>[]\<close>.
\<close>

theorem unpack_empty_mapping_counterexample:
  "\<not> is_list (JDict []) \<and> unpack (JDict []) = JList [] \<and> unpack (JDict []) \<noteq> JDict []"
  by (simp add: unpack_def is_list_def)

text \<open>
  C9, amended.  Every value that is not a Sequence, and is neither the empty Mapping
  nor the empty string, is returned by \<open>unpack\<close> unchanged.
\<close>

theorem unpack_non_sequence:
  "\<not> is_list v \<Longrightarrow> v \<noteq> JDict [] \<Longrightarrow> v \<noteq> JStr [] \<Longrightarrow> unpack v = v"
proof (cases v)
  case (JStr s)
  assume "v \<noteq> JStr []"
  with JStr obtain c cs where "s = c # cs" by (cases s) auto
  with JStr show ?thesis by (simp add: unpack_def)
next
  case (JDict d)
  assume "v \<noteq> JDict []"
  with JDict obtain kv d' where "d = kv # d'" by (cases d) auto
  with JDict show ?thesis by (simp add: unpack_def)
qed (simp_all add: unpack_def is_list_def)

theorem unpack_non_sequence_witness:
  "\<not> is_list (JDict [(''a'', JList [])]) \<and> JDict [(''a'', JList [])] \<noteq> JDict []
   \<and> JDict [(''a'', JList [])] \<noteq> JStr []
   \<and> unpack (JDict [(''a'', JList [])]) = JDict [(''a'', JList [])]"
  using unpack_non_sequence [of "JDict [(''a'', JList [])]"]
  by (simp add: is_list_def)

section \<open>Properties of Specifier.apply\<close>

text \<open>C8.  The empty specification returns the document unchanged.\<close>

theorem apply_empty: "Specifier_apply [] d = Inr d"
  by simp

lemma collect_first_error:
  "\<forall>y\<in>set pre. \<exists>r. f y = Inr r \<Longrightarrow> f x = Inl e \<Longrightarrow> collect (map f (pre @ x # post)) = Inl e"
  by (induction pre) auto

lemma collect_all_ok: "\<forall>x\<in>set xs. f x = Inr (g x) \<Longrightarrow> collect (map f xs) = Inr (map g xs)"
  by (induction xs) auto

lemma py_index_out:
  "int (length xs) \<le> i \<or> i < - int (length xs) \<Longrightarrow> py_index xs i = Inl IndexError"
  by (auto simp: py_index_def)

lemma apply_name_list:
  "Specifier_apply (Key (Name k) # rest) (JList xs) =
     map_sum id JList (collect (map (Specifier_apply (Key (Name k) # rest)) xs))"
  by (simp add: is_nonempty_str_def)

lemma apply_index_list:
  "py_index xs i = Inr v \<Longrightarrow>
     Specifier_apply (Key (Index i) # rest) (JList xs) = Specifier_apply rest v"
  by simp

text \<open>
  C1 as stated fails for an integer key: a Sequence supports an integer key itself, so
  the key indexes the Sequence and nothing is broadcast, although every element
  supports the key too.
\<close>

theorem broadcast_index_counterexample:
  "getitem (JList [JInt 1, JInt 2]) (Index 0) = Inr (JInt 1)
   \<and> getitem (JList [JInt 3, JInt 4]) (Index 0) = Inr (JInt 3)
   \<and> Specifier_apply [Key (Index 0)] (JList [JList [JInt 1, JInt 2], JList [JInt 3, JInt 4]])
       = Inr (JList [JInt 1, JInt 2])
   \<and> map (Specifier_apply [Key (Index 0)]) [JList [JInt 1, JInt 2], JList [JInt 3, JInt 4]]
       = [Inr (JInt 1), Inr (JInt 3)]"
  by (simp add: py_index_def)

text \<open>
  C1, amended.  For a string key at the head, applying the specification to a Sequence
  is applying the same specification to each element in order: the result is the
  Sequence of the results, and the first element that raises makes the whole
  application raise that error.  An integer key in range indexes the Sequence itself
  and the rest of the specification is applied to that one element.
\<close>

theorem broadcast_name:
  "Specifier_apply (Key (Name k) # rest) (JList xs) =
     map_sum id JList (collect (map (Specifier_apply (Key (Name k) # rest)) xs))
   \<and> ((\<forall>x\<in>set xs. Specifier_apply (Key (Name k) # rest) x = Inr (f x)) \<longrightarrow>
        Specifier_apply (Key (Name k) # rest) (JList xs) = Inr (JList (map f xs)))
   \<and> (py_index xs i = Inr v \<longrightarrow>
        Specifier_apply (Key (Index i) # rest) (JList xs) = Specifier_apply rest v)"
proof (intro conjI impI)
  show "Specifier_apply (Key (Name k) # rest) (JList xs) =
     map_sum id JList (collect (map (Specifier_apply (Key (Name k) # rest)) xs))"
    by (rule apply_name_list)
next
  assume "\<forall>x\<in>set xs. Specifier_apply (Key (Name k) # rest) x = Inr (f x)"
  then have "collect (map (Specifier_apply (Key (Name k) # rest)) xs) = Inr (map f xs)"
    by (rule collect_all_ok)
  then show "Specifier_apply (Key (Name k) # rest) (JList xs) = Inr (JList (map f xs))"
    by (simp only: apply_name_list) simp
next
  assume "py_index xs i = Inr v"
  then show "Specifier_apply (Key (Index i) # rest) (JList xs) = Specifier_apply rest v"
    by (rule apply_index_list)
qed

theorem broadcast_name_witness:
  "Specifier_apply [Key (Name ''a'')] (JDict [(''a'', JInt 1)]) = Inr (JInt 1)
   \<and> Specifier_apply [Key (Name ''a'')] (JDict [(''a'', JInt 2)]) = Inr (JInt 2)
   \<and> Specifier_apply [Key (Name ''a'')] (JList [JDict [(''a'', JInt 1)], JDict [(''a'', JInt 2)]])
       = Inr (JList [JInt 1, JInt 2])
   \<and> py_index [JDict [(''a'', JInt 1)], JDict [(''a'', JInt 2)]] (- 1) = Inr (JDict [(''a'', JInt 2)])
   \<and> Specifier_apply [Key (Index (- 1))] (JList [JDict [(''a'', JInt 1)], JDict [(''a'', JInt 2)]])
       = Inr (JDict [(''a'', JInt 2)])"
  using broadcast_name
    [of "''a''" "[]" "[JDict [(''a'', JInt 1)], JDict [(''a'', JInt 2)]]"
        "\<lambda>x. if x = JDict [(''a'', JInt 1)] then JInt 1 else JInt 2" "- 1"
        "JDict [(''a'', JInt 2)]"]
  by (simp add: py_index_def)

lemma apply_key_ok:
  "getitem doc k = Inr v \<Longrightarrow> Specifier_apply (Key k # rest) doc = Specifier_apply rest v"
  by simp

lemma apply_follow:
  "follow ks doc = Inr v \<Longrightarrow> Specifier_apply (map Key ks @ rest) doc = Specifier_apply rest v"
proof (induction ks arbitrary: doc)
  case Nil
  then show ?case by simp
next
  case (Cons k ks)
  then obtain w where w: "getitem doc k = Inr w" and f: "follow ks w = Inr v"
    by (auto split: sum.splits)
  from Cons.IH [OF f] apply_key_ok [OF w, of "map Key ks @ rest"] show ?case by simp
qed

lemma apply_keep_all:
  "py_iter doc = Inr vs \<Longrightarrow>
   Specifier_apply (Token KEEP_ALL # rest) doc = map_sum id JList (collect (map (Specifier_apply rest) vs))"
  by simp

text \<open>
  C6.  A string key that a Mapping does not hold raises \<open>KeyError\<close>, and an integer
  index out of the range of a Sequence raises \<open>IndexError\<close>; the result of the
  application is that error, whatever the rest of the specification.  Wherever the
  interpreter calls itself, the error of the inner application is the result of the
  outer one: under \<open>FLATTEN\<close> and \<open>UNPACK\<close>, after a key that was applied
  successfully (and so after any path of such keys), and in the element-wise
  applications of \<open>KEEP_ALL\<close> and of a broadcast, where the results of the elements
  before the failing one are not returned.
\<close>

theorem missing_key_raises:
  "(map_of d k = None \<longrightarrow> Specifier_apply (Key (Name k) # rest) (JDict d) = Inl KeyError)
   \<and> (int (length xs) \<le> i \<or> i < - int (length xs) \<longrightarrow>
        Specifier_apply (Key (Index i) # rest) (JList xs) = Inl IndexError)
   \<and> (Specifier_apply rest doc = Inl e \<longrightarrow>
        Specifier_apply (Token FLATTEN # rest) doc = Inl e
        \<and> Specifier_apply (Token UNPACK # rest) doc = Inl e)
   \<and> (getitem doc k' = Inr v \<and> Specifier_apply rest v = Inl e \<longrightarrow>
        Specifier_apply (Key k' # rest) doc = Inl e)
   \<and> (follow ks doc = Inr v \<and> Specifier_apply rest v = Inl e \<longrightarrow>
        Specifier_apply (map Key ks @ rest) doc = Inl e)
   \<and> (py_iter doc = Inr (pre @ x # post)
        \<and> (\<forall>y\<in>set pre. \<exists>r. Specifier_apply rest y = Inr r)
        \<and> Specifier_apply rest x = Inl e \<longrightarrow>
        Specifier_apply (Token KEEP_ALL # rest) doc = Inl e)
   \<and> ((\<forall>y\<in>set pre. \<exists>r. Specifier_apply (Key (Name k) # rest) y = Inr r)
        \<and> Specifier_apply (Key (Name k) # rest) x = Inl e \<longrightarrow>
        Specifier_apply (Key (Name k) # rest) (JList (pre @ x # post)) = Inl e)"
proof (intro conjI impI)
  assume "map_of d k = None"
  then show "Specifier_apply (Key (Name k) # rest) (JDict d) = Inl KeyError" by simp
next
  assume "int (length xs) \<le> i \<or> i < - int (length xs)"
  then show "Specifier_apply (Key (Index i) # rest) (JList xs) = Inl IndexError"
    by (simp add: py_index_out)
next
  assume "Specifier_apply rest doc = Inl e"
  then show "Specifier_apply (Token FLATTEN # rest) doc = Inl e"
    and "Specifier_apply (Token UNPACK # rest) doc = Inl e" by simp_all
next
  assume "getitem doc k' = Inr v \<and> Specifier_apply rest v = Inl e"
  then show "Specifier_apply (Key k' # rest) doc = Inl e"
    using apply_key_ok [of doc k' v rest] by simp
next
  assume "follow ks doc = Inr v \<and> Specifier_apply rest v = Inl e"
  then show "Specifier_apply (map Key ks @ rest) doc = Inl e"
    using apply_follow [of ks doc v rest] by simp
next
  assume a: "py_iter doc = Inr (pre @ x # post)
        \<and> (\<forall>y\<in>set pre. \<exists>r. Specifier_apply rest y = Inr r)
        \<and> Specifier_apply rest x = Inl e"
  then have "collect (map (Specifier_apply rest) (pre @ x # post)) = Inl e"
    by (intro collect_first_error) auto
  with a show "Specifier_apply (Token KEEP_ALL # rest) doc = Inl e"
    using apply_keep_all [of doc "pre @ x # post" rest] by simp
next
  assume "(\<forall>y\<in>set pre. \<exists>r. Specifier_apply (Key (Name k) # rest) y = Inr r)
        \<and> Specifier_apply (Key (Name k) # rest) x = Inl e"
  then have "collect (map (Specifier_apply (Key (Name k) # rest)) (pre @ x # post)) = Inl e"
    by (intro collect_first_error) auto
  then show "Specifier_apply (Key (Name k) # rest) (JList (pre @ x # post)) = Inl e"
    by (simp only: apply_name_list) simp
qed

theorem missing_key_raises_witness:
  "map_of [(''a'', JInt 1)] ''b'' = None
   \<and> Specifier_apply [Key (Name ''b''), Key (Name ''c'')] (JDict [(''a'', JInt 1)]) = Inl KeyError
   \<and> Specifier_apply [Key (Index 2), Key (Name ''c'')] (JList [JInt 1, JInt 2]) = Inl IndexError
   \<and> Specifier_apply [Key (Name ''c'')] (JDict []) = Inl KeyError
   \<and> Specifier_apply [Token FLATTEN, Key (Name ''c'')] (JDict []) = Inl KeyError
   \<and> Specifier_apply [Token UNPACK, Key (Name ''c'')] (JDict []) = Inl KeyError
   \<and> getitem (JDict [(''p'', JDict [])]) (Name ''p'') = Inr (JDict [])
   \<and> Specifier_apply [Key (Name ''p''), Key (Name ''c'')] (JDict [(''p'', JDict [])]) = Inl KeyError
   \<and> follow [Name ''p'', Index 0] (JDict [(''p'', JList [JDict []])]) = Inr (JDict [])
   \<and> Specifier_apply [Key (Name ''p''), Key (Index 0), Key (Name ''c'')]
         (JDict [(''p'', JList [JDict []])]) = Inl KeyError
   \<and> Specifier_apply [Key (Name ''c'')] (JDict [(''c'', JInt 0)]) = Inr (JInt 0)
   \<and> Specifier_apply [Token KEEP_ALL, Key (Name ''c'')]
         (JList [JDict [(''c'', JInt 0)], JDict []]) = Inl KeyError
   \<and> Specifier_apply [Key (Name ''b''), Key (Name ''c'')]
         (JDict [(''b'', JDict [(''c'', JInt 0)])]) = Inr (JInt 0)
   \<and> Specifier_apply [Key (Name ''b''), Key (Name ''c'')]
         (JList [JDict [(''b'', JDict [(''c'', JInt 0)])], JDict [(''a'', JInt 1)]]) = Inl KeyError"
  using
    missing_key_raises
      [where d = "[(''a'', JInt 1)]" and k = "''b''" and rest = "[Key (Name ''c'')]"
         and xs = "[JInt 1, JInt 2]" and i = 2 and doc = "JDict []" and e = KeyError
         and pre = "[JDict [(''b'', JDict [(''c'', JInt 0)])]]" and x = "JDict [(''a'', JInt 1)]"
         and post = "[]" and ks = "[]" and v = "JDict []" and k' = "Name ''p''"]
    missing_key_raises
      [where rest = "[Key (Name ''c'')]" and doc = "JDict [(''p'', JDict [])]" and e = KeyError
         and k' = "Name ''p''" and v = "JDict []" and ks = "[Name ''p'']"
         and d = "[]" and k = "''b''" and xs = "[]" and i = 0 and pre = "[]" and x = JNull
         and post = "[]"]
    missing_key_raises
      [where rest = "[Key (Name ''c'')]" and doc = "JDict [(''p'', JList [JDict []])]"
         and e = KeyError and ks = "[Name ''p'', Index 0]" and v = "JDict []"
         and k' = "Name ''p''" and d = "[]" and k = "''b''" and xs = "[]" and i = 0
         and pre = "[]" and x = JNull and post = "[]"]
    missing_key_raises
      [where rest = "[Key (Name ''c'')]" and doc = "JList [JDict [(''c'', JInt 0)], JDict []]"
         and e = KeyError and pre = "[JDict [(''c'', JInt 0)]]" and x = "JDict []" and post = "[]"
         and ks = "[]" and v = JNull and k' = "Name ''p''" and d = "[]" and k = "''b''"
         and xs = "[]" and i = 0]
  by (simp add: py_index_def)

text \<open>
  C10.  An integer key on a Mapping raises \<open>KeyError\<close> (the keys of a Mapping are
  strings); this is not the \<open>TypeError\<close> that starts a broadcast, so the error is the
  result of the application.
\<close>

theorem apply_int_key_on_mapping:
  "getitem (JDict d) (Index i) = Inl KeyError
   \<and> Specifier_apply (Key (Index i) # rest) (JDict d) = Inl KeyError"
  by simp

section \<open>The selector of conditional_product\<close>

text \<open>
  C7.  A \<open>key\<close> that is given (not \<open>None\<close>), is not callable and is not iterable makes
  the call itself raise \<open>ValueError\<close>: no generator is returned, so nothing is yielded,
  and the cells are not looked at (the result does not depend on \<open>vals\<close>).
\<close>

theorem invalid_selector:
  "\<not> isiterable k \<Longrightarrow> k \<noteq> JNull \<Longrightarrow> conditional_product vals (Object k) = Inl ValueError"
  by (cases k) (simp_all add: isiterable_def)

theorem invalid_selector_witness:
  "\<not> isiterable (JInt 5) \<and> JInt 5 \<noteq> JNull
   \<and> conditional_product [JList [JInt 1, JInt 2], JInt 3] (Object (JInt 5)) = Inl ValueError"
  using invalid_selector [of "JInt 5" "[JList [JInt 1, JInt 2], JInt 3]"]
  by (simp add: isiterable_def)

section \<open>The generator enumerates the cartesian product\<close>

lemma for_loop_adv:
  "adv ds = Some (b, ds') \<Longrightarrow>
   for_loop (map d_val (rev ds) @ vpost) (zip (map d_pred ds) (rev [0..<length ds]))
     (map d_slot (rev ds) @ ipost) (map d_cur (rev ds) @ cpost)
   = (if b then Break else NoBreak) (map d_slot (rev ds') @ ipost) (map d_cur (rev ds') @ cpost)"
proof (induction ds arbitrary: b ds' vpost ipost cpost)
  case Nil
  then show ?case by simp
next
  case (Cons d ds)
  obtain p v it c where d: "d = Digit p v it c" by (cases d)
  show ?case
  proof (cases p)
    case False
    with Cons.prems d obtain ds0 where a: "adv ds = Some (b, ds0)" and ds': "ds' = d # ds0"
      by auto
    from Cons.IH [OF a, of "v # vpost" "it # ipost" "c # cpost"] False d ds'
    show ?thesis by simp
  next
    case True
    show ?thesis
    proof (cases "py_next it")
      case (Next x it')
      with Cons.prems d True have "b" "ds' = Digit p v it' x # ds" by auto
      with Next d True show ?thesis
        by (simp add: nth_append list_update_append)
    next
      case NoIterator
      with Cons.prems d True show ?thesis by simp
    next
      case StopIteration
      with Cons.prems d True obtain xs x it' ds0 where
        xs: "py_iter v = Inr xs" and nx: "py_next (Iter xs) = Next x it'"
        and a: "adv ds = Some (b, ds0)" and ds': "ds' = Digit p v it' x # ds0"
        by (auto split: sum.splits next_result.splits)
      from Cons.IH [OF a, of "v # vpost" "it' # ipost" "x # cpost"] StopIteration xs nx d True ds'
      show ?thesis
        by (simp add: nth_append list_update_append)
    qed
  qed
qed

lemma remaining_head: "remaining ds = map d_cur ds # tl (remaining ds)"
  by (cases ds) simp_all

lemma good_init: "good d \<Longrightarrow> good (init d)"
  by (cases d) (auto simp: good_def init_def items_def)

lemma remaining_init:
  "\<forall>d\<in>set ds. good d \<Longrightarrow> remaining (map init ds) = rprod (map axis_of ds)"
proof (induction ds)
  case Nil
  then show ?case by simp
next
  case (Cons d ds)
  then have IH: "remaining (map init ds) = rprod (map axis_of ds)" and g: "good d" by simp_all
  let ?F = "\<lambda>pre. map (\<lambda>x. x # pre) (axis_of d)"
  have ax: "axis_of (init d) = axis_of d" by (simp add: axis_of_def init_def)
  have cur: "d_cur (init d) # rest_of (init d) = axis_of d"
  proof (cases "d_pred d")
    case True
    with g obtain seen r where "py_iter (d_val d) = Inr (seen @ d_cur d # r)"
      by (auto simp: good_def)
    then have "items (d_val d) \<noteq> []" by (simp add: items_def)
    with True show ?thesis by (simp add: init_def rest_of_def axis_of_def axis_def)
  next
    case False
    with g show ?thesis by (simp add: init_def rest_of_def axis_of_def axis_def good_def)
  qed
  have "remaining (map init (d # ds))
      = ?F (map d_cur (map init ds)) @ concat (map ?F (tl (remaining (map init ds))))"
    by (simp add: cur ax)
  also have "\<dots> = concat (map ?F (map d_cur (map init ds) # tl (remaining (map init ds))))"
    by simp
  also have "\<dots> = concat (map ?F (remaining (map init ds)))"
    using remaining_head [of "map init ds"] by simp
  finally show ?case by (simp add: IH)
qed

lemma adv_step:
  "\<forall>d\<in>set ds. good d \<Longrightarrow>
   \<exists>b ds'. adv ds = Some (b, ds')
     \<and> (\<forall>d\<in>set ds'. good d)
     \<and> map d_val ds' = map d_val ds \<and> map d_pred ds' = map d_pred ds
     \<and> (if b then remaining ds = map d_cur ds # remaining ds'
         else remaining ds = [map d_cur ds] \<and> ds' = map init ds)"
proof (induction ds)
  case Nil
  show ?case by (intro exI [of _ False] exI [of _ "[]"]) simp
next
  case (Cons d ds)
  then have g: "good d" and gs: "\<forall>d\<in>set ds. good d" by simp_all
  from Cons.IH [OF gs] obtain b ds0 where
    a: "adv ds = Some (b, ds0)" and g0: "\<forall>d\<in>set ds0. good d"
    and v0: "map d_val ds0 = map d_val ds" and p0: "map d_pred ds0 = map d_pred ds"
    and r0: "if b then remaining ds = map d_cur ds # remaining ds0
             else remaining ds = [map d_cur ds] \<and> ds0 = map init ds"
    by blast
  obtain p v it c where d: "d = Digit p v it c" by (cases d)
  let ?F = "\<lambda>pre. map (\<lambda>x. x # pre) (axis_of d)"
  show ?case
  proof (cases p)
    case False
    with g d have it: "it = Held v" and c: "c = v" by (simp_all add: good_def)
    have adv: "adv (d # ds) = Some (b, d # ds0)" using a d False by simp
    have ax: "axis_of d = [v]" using d False by (simp add: axis_of_def axis_def)
    have ini: "init d = d" using d False by (simp add: init_def)
    show ?thesis
    proof (cases b)
      case True
      with r0 have r: "remaining ds = map d_cur ds # remaining ds0" by simp
      have "remaining (d # ds0) = map ((#) v) (map d_cur ds0 # tl (remaining ds0))"
        using d it c ax by (simp add: rest_of_def)
      then have "remaining (d # ds0) = map ((#) v) (remaining ds0)"
        using remaining_head [of ds0] by simp
      then have "remaining (d # ds) = map d_cur (d # ds) # remaining (d # ds0)"
        using d it c ax r by (simp add: rest_of_def)
      with adv g g0 v0 p0 True show ?thesis
        by (intro exI [of _ True] exI [of _ "d # ds0"]) (simp del: remaining.simps)
    next
      case False
      with r0 have "remaining ds = [map d_cur ds]" "ds0 = map init ds" by simp_all
      with adv g g0 v0 p0 False d it c ini show ?thesis
        by (intro exI [of _ False] exI [of _ "d # ds0"]) (simp add: rest_of_def)
    qed
  next
    case True
    with g d obtain seen r where
      pi: "py_iter v = Inr (seen @ c # r)" and it: "it = Iter r"
      by (auto simp: good_def)
    have ax: "axis_of d = seen @ c # r" using d True pi by (simp add: axis_of_def axis_def items_def)
    show ?thesis
    proof (cases r)
      case (Cons x r')
      let ?d' = "Digit p v (Iter r') x"
      have adv: "adv (d # ds) = Some (True, ?d' # ds)" using d True it Cons by simp
      have "good ?d'" using True pi Cons by (auto simp: good_def intro: exI [of _ "seen @ [c]"])
      moreover have "remaining (d # ds) = map d_cur (d # ds) # remaining (?d' # ds)"
        using d it Cons by (simp add: rest_of_def axis_of_def)
      moreover have "d_val d = v" "d_pred d = p" using d by simp_all
      ultimately show ?thesis using adv gs
        by (intro exI [of _ True] exI [of _ "?d' # ds"]) (simp del: remaining.simps)
    next
      case Nil
      obtain y ys where ys: "seen @ [c] = y # ys" by (cases seen) auto
      let ?d' = "Digit p v (Iter ys) y"
      have ini: "init d = ?d'" using d True pi ys Nil by (simp add: init_def items_def)
      have gd': "good ?d'" using g ini good_init by metis
      have adv: "adv (d # ds) = Some (b, ?d' # ds0)"
        using d True it Nil pi ys a by simp
      have ax': "axis_of ?d' = axis_of d" using d by (simp add: axis_of_def)
      have full: "d_cur ?d' # rest_of ?d' = axis_of d" using ax ys Nil by (simp add: rest_of_def)
      show ?thesis
      proof (cases b)
        case True
        with r0 have r: "remaining ds = map d_cur ds # remaining ds0" by simp
        have "remaining (?d' # ds0) = ?F (map d_cur ds0) @ concat (map ?F (tl (remaining ds0)))"
          using full ax' by simp
        also have "\<dots> = concat (map ?F (map d_cur ds0 # tl (remaining ds0)))" by simp
        also have "\<dots> = concat (map ?F (remaining ds0))"
          using remaining_head [of ds0] by simp
        finally have "remaining (?d' # ds0) = concat (map ?F (remaining ds0))" .
        then have "remaining (d # ds) = map d_cur (d # ds) # remaining (?d' # ds0)"
          using d it Nil r by (simp add: rest_of_def)
        moreover have "d_val d = v" "d_pred d = p" using d by simp_all
        ultimately show ?thesis using adv gd' g0 v0 p0 True
          by (intro exI [of _ True] exI [of _ "?d' # ds0"]) (simp del: remaining.simps)
      next
        case False
        with r0 have "remaining ds = [map d_cur ds]" "ds0 = map init ds" by simp_all
        with adv gd' g0 v0 p0 False d it Nil ini show ?thesis
          by (intro exI [of _ False] exI [of _ "?d' # ds0"]) (simp add: rest_of_def)
      qed
    qed
  qed
qed


lemma while_loop_remaining:
  "\<forall>d\<in>set ds. good d \<Longrightarrow>
   while_loop (map d_val (rev ds)) (rev (map d_pred ds)) (map d_slot (rev ds)) (map d_cur (rev ds))
     = Some (map rev (remaining ds), None)"
proof (induction "length (remaining ds)" arbitrary: ds rule: less_induct)
  case less
  from adv_step [OF less.prems] obtain b ds' where
    a: "adv ds = Some (b, ds')" and g': "\<forall>d\<in>set ds'. good d"
    and v': "map d_val ds' = map d_val ds" and p': "map d_pred ds' = map d_pred ds"
    and r: "if b then remaining ds = map d_cur ds # remaining ds'
            else remaining ds = [map d_cur ds] \<and> ds' = map init ds"
    by blast
  have fl: "for_loop (map d_val (rev ds)) (zip (map d_pred ds) (rev [0..<length ds]))
      (map d_slot (rev ds)) (map d_cur (rev ds))
    = (if b then Break else NoBreak) (map d_slot (rev ds')) (map d_cur (rev ds'))"
    using for_loop_adv [OF a, of "[]" "[]" "[]"] by simp
  show ?case
  proof (cases b)
    case False
    with r have "remaining ds = [map d_cur ds]" by simp
    with fl False show ?thesis
      by (subst while_loop.simps) (simp add: rev_map)
  next
    case True
    with r have rr: "remaining ds = map d_cur ds # remaining ds'" by simp
    then have "length (remaining ds') < length (remaining ds)" by simp
    moreover from v' p' have "map d_val (rev ds') = map d_val (rev ds)"
      "map d_pred (rev ds') = map d_pred (rev ds)"
      by (simp_all add: rev_map [symmetric])
    moreover note less.hyps [OF _ g']
    ultimately have "while_loop (map d_val (rev ds)) (rev (map d_pred ds)) (map d_slot (rev ds'))
        (map d_cur (rev ds')) = Some (map rev (remaining ds'), None)"
      by (simp add: rev_map)
    with fl True rr show ?thesis
      by (subst while_loop.simps) (simp add: rev_map)
  qed
qed

lemma product_lists_snoc:
  "product_lists (xss @ [xs]) = concat (map (\<lambda>pre. map (\<lambda>x. pre @ [x]) xs) (product_lists xss))"
proof (induction xss)
  case Nil
  show ?case by (induction xs) simp_all
next
  case (Cons ys xss)
  let ?G = "\<lambda>pre. map (\<lambda>x. pre @ [x]) xs" and ?P = "product_lists xss"
  have "product_lists ((ys # xss) @ [xs])
      = concat (map (\<lambda>y. map ((#) y) (concat (map ?G ?P))) ys)"
    by (simp add: Cons.IH)
  also have "\<dots> = concat (map ?G (concat (map (\<lambda>y. map ((#) y) ?P) ys)))"
    by (induction ys) (simp_all add: map_concat o_def)
  finally show ?case by simp
qed

lemma rprod_product_lists: "map rev (rprod (rev xss)) = product_lists xss"
proof (induction xss rule: rev_induct)
  case Nil
  show ?case by simp
next
  case (snoc xs xss)
  have "map rev (rprod (rev (xss @ [xs])))
      = concat (map (\<lambda>pre. map (\<lambda>x. rev pre @ [x]) xs) (rprod (rev xss)))"
    by (simp add: map_concat o_def)
  also have "\<dots> = concat (map (\<lambda>pre. map (\<lambda>x. pre @ [x]) xs) (map rev (rprod (rev xss))))"
    by (simp add: o_def)
  finally show ?case by (simp add: snoc.IH product_lists_snoc)
qed

lemma items_py_iter: "items v \<noteq> [] \<Longrightarrow> py_iter v = Inr (items v)"
  by (simp add: items_def split: sum.splits)

lemma isiterable_py_iter: "isiterable v \<Longrightarrow> py_iter v = Inr (items v)"
  by (simp add: items_def isiterable_def split: sum.splits)

lemma make_iters_ok:
  "list_all2 (\<lambda>p v. p \<longrightarrow> isiterable v) key vals \<Longrightarrow>
   make_iters key vals = Inr (map2 (\<lambda>p v. if p then Iter (items v) else Held v) key vals)"
  unfolding make_iters_def
  by (induction key vals rule: list_all2_induct) (auto simp: isiterable_py_iter)

lemma make_curr_ok:
  "list_all2 (\<lambda>p v. p \<longrightarrow> items v \<noteq> []) key vals \<Longrightarrow>
   make_curr (zip key (map2 (\<lambda>p v. if p then Iter (items v) else Held v) key vals))
     = Inr (map d_slot (map2 start key vals), map d_cur (map2 start key vals))"
proof (induction key vals rule: list_all2_induct)
  case Nil
  show ?case by simp
next
  case (Cons p key v vals)
  show ?case
  proof (cases p)
    case True
    with Cons.hyps obtain x xs where "items v = x # xs" by (cases "items v") auto
    with True Cons.IH show ?thesis by (simp add: start_def)
  next
    case False
    with Cons.IH show ?thesis by (simp add: start_def)
  qed
qed

lemma make_curr_empty:
  "list_all2 (\<lambda>p v. True) key vals \<Longrightarrow> \<exists>(p, v)\<in>set (zip key vals). p \<and> items v = [] \<Longrightarrow>
   make_curr (zip key (map2 (\<lambda>p v. if p then Iter (items v) else Held v) key vals))
     = Inl RuntimeError"
proof (induction key vals rule: list_all2_induct)
  case Nil
  then show ?case by simp
next
  case (Cons p key v vals)
  show ?case
  proof (cases "p \<and> items v = []")
    case True
    then show ?thesis by simp
  next
    case False
    with Cons.prems have "\<exists>(p, v)\<in>set (zip key vals). p \<and> items v = []" by auto
    from Cons.IH [OF this] show ?thesis
      by (cases "items v") (simp_all split: sum.splits)
  qed
qed

lemma start_facts:
  "list_all2 (\<lambda>p v. p \<longrightarrow> items v \<noteq> []) key vals \<Longrightarrow>
   map d_val (map2 start key vals) = vals \<and> map d_pred (map2 start key vals) = key
   \<and> (\<forall>d\<in>set (map2 start key vals). good d)
   \<and> map init (map2 start key vals) = map2 start key vals
   \<and> map axis_of (map2 start key vals) = map2 axis key vals"
proof (induction key vals rule: list_all2_induct)
  case Nil
  show ?case by simp
next
  case (Cons p key v vals)
  have "good (start p v)"
  proof (cases p)
    case True
    with Cons.hyps obtain x xs where "items v = x # xs" by (cases "items v") auto
    moreover from this have "py_iter v = Inr (x # xs)" using items_py_iter [of v] by simp
    ultimately show ?thesis using True by (simp add: good_def start_def)
  next
    case False
    then show ?thesis by (simp add: good_def start_def)
  qed
  moreover have "init (start p v) = start p v" "axis_of (start p v) = axis p v"
    "d_val (start p v) = v" "d_pred (start p v) = p"
    by (simp_all add: init_def start_def axis_of_def)
  ultimately show ?case using Cons.IH by simp
qed

lemma curr_gen_product:
  assumes "list_all2 (\<lambda>p v. p \<longrightarrow> items v \<noteq> []) key vals"
  shows "curr_gen vals key = Some (product_lists (map2 axis key vals), None)"
proof -
  let ?D = "map2 start key vals"
  from assms have "list_all2 (\<lambda>p v. p \<longrightarrow> isiterable v) key vals"
    by (rule list_all2_mono) (auto simp: items_def isiterable_def split: sum.splits)
  then have mi: "make_iters key vals
      = Inr (map2 (\<lambda>p v. if p then Iter (items v) else Held v) key vals)"
    by (rule make_iters_ok)
  note mc = make_curr_ok [OF assms]
  from start_facts [OF assms] have
    v: "map d_val ?D = vals" and p: "map d_pred ?D = key" and g: "\<forall>d\<in>set ?D. good d"
    and i: "map init ?D = ?D" and a: "map axis_of ?D = map2 axis key vals"
    by simp_all
  have g': "\<forall>d\<in>set (rev ?D). good d" using g by simp
  have "curr_gen vals key = while_loop vals key (map d_slot ?D) (map d_cur ?D)"
    by (simp add: curr_gen_def mi mc)
  also have "\<dots> = while_loop (map d_val (rev (rev ?D))) (rev (map d_pred (rev ?D)))
      (map d_slot (rev (rev ?D))) (map d_cur (rev (rev ?D)))"
    by (simp only: rev_map rev_rev_ident v p)
  also have "\<dots> = Some (map rev (remaining (rev ?D)), None)"
    by (rule while_loop_remaining [OF g'])
  also have "remaining (rev ?D) = remaining (map init (rev ?D))"
    by (simp only: rev_map [symmetric] i)
  also have "\<dots> = rprod (map axis_of (rev ?D))"
    by (rule remaining_init [OF g'])
  also have "\<dots> = rprod (rev (map2 axis key vals))"
    by (simp only: rev_map [symmetric] a)
  finally show ?thesis by (simp add: rprod_product_lists)
qed

text \<open>
  An empty selected cell: the first \<open>next\<close> raises before anything is yielded.
\<close>

lemma curr_gen_empty_cell:
  assumes "list_all2 (\<lambda>p v. p \<longrightarrow> isiterable v) key vals"
    and "\<exists>(p, v)\<in>set (zip key vals). p \<and> items v = []"
  shows "curr_gen vals key = Some ([], Some RuntimeError)"
proof -
  from assms(1) have "list_all2 (\<lambda>p v. True) key vals"
    by (rule list_all2_mono) simp
  from make_curr_empty [OF this assms(2)] make_iters_ok [OF assms(1)]
  show ?thesis by (simp add: curr_gen_def)
qed

lemma length_axes:
  "foldr (*) (map length (map (\<lambda>(p, v). axis p v) zs)) 1
     = prod_list (map (\<lambda>(p, v). length (items v)) (filter fst zs))"
  by (induction zs) (auto simp: axis_def)

lemma product_singletons: "product_lists (map (\<lambda>v. [v]) vals) = [vals]"
  by (induction vals) simp_all

lemma axes_unselected:
  "length key = length vals \<Longrightarrow> \<forall>p\<in>set key. \<not> p \<Longrightarrow> map2 axis key vals = map (\<lambda>v. [v]) vals"
  by (induction key vals rule: list_induct2) (auto simp: axis_def)

lemma product_lists_nth:
  "row \<in> set (product_lists xss) \<Longrightarrow> i < length xss \<Longrightarrow> row ! i \<in> set (xss ! i)"
proof (induction xss arbitrary: row i)
  case Nil
  then show ?case by simp
next
  case (Cons xs xss)
  then obtain x r where "row = x # r" "x \<in> set xs" "r \<in> set (product_lists xss)" by auto
  with Cons show ?case by (cases i) auto
qed

lemma product_lists_empty_axis: "[] \<in> set xss \<Longrightarrow> product_lists xss = []"
  by (induction xss) auto

lemma curr_gen_aligned:
  assumes "length key = length vals"
    and "\<forall>(pred, val)\<in>set (zip key vals). pred \<longrightarrow> isiterable val"
  shows "curr_gen vals key =
     Some (product_lists (map2 axis key vals),
           if \<exists>(pred, val)\<in>set (zip key vals). pred \<and> items val = [] then Some RuntimeError
           else None)"
proof (cases "\<exists>(pred, val)\<in>set (zip key vals). pred \<and> items val = []")
  case True
  then obtain p v where pv: "(p, v) \<in> set (zip key vals)" "p" "items v = []" by auto
  then have "axis p v = []" by (simp add: axis_def)
  with pv(1) have "[] \<in> set (map2 axis key vals)" by force
  then have "product_lists (map2 axis key vals) = []" by (rule product_lists_empty_axis)
  moreover from assms have "list_all2 (\<lambda>p v. p \<longrightarrow> isiterable v) key vals"
    by (auto simp: list_all2_iff)
  then have "curr_gen vals key = Some ([], Some RuntimeError)"
    using True by (rule curr_gen_empty_cell)
  ultimately show ?thesis using True by simp
next
  case False
  with assms(1) have "list_all2 (\<lambda>p v. p \<longrightarrow> items v \<noteq> []) key vals"
    by (auto simp: list_all2_iff)
  then have "curr_gen vals key = Some (product_lists (map2 axis key vals), None)"
    by (rule curr_gen_product)
  with False show ?thesis by simp
qed

section \<open>Cardinality and order of the expansion\<close>

text \<open>
  The mask is aligned with the row, one flag for each cell.  With a mask of another
  length the \<open>for\<close> loop pairs the reversed mask with other positions than the two
  comprehensions do.
\<close>

lemma mask_of_other_length:
  "curr_gen [JList [JInt 1, JInt 2]] [True, False] = Some ([[JInt 1]], None)"
  by code_simp

text \<open>
  C2.  For a mask aligned with the row whose selected cells are iterable, the number
  of rows the generator yields is the product of the lengths of the selected cells.
  When no cell is selected it yields the row itself, once, and ends normally.  When a
  selected cell is empty it yields no row; it then ends with \<open>RuntimeError\<close> (the
  \<open>StopIteration\<close> of the first \<open>next\<close> leaves the generator).  When no selected cell is
  empty it ends normally.
\<close>

theorem expansion_cardinality:
  assumes "length key = length vals"
    and "\<forall>(pred, val)\<in>set (zip key vals). pred \<longrightarrow> isiterable val"
  shows "\<exists>rs st. curr_gen vals key = Some (rs, st)
     \<and> length rs = prod_list (map (\<lambda>(pred, val). length (items val)) (filter fst (zip key vals)))
     \<and> ((\<forall>pred\<in>set key. \<not> pred) \<longrightarrow> rs = [vals] \<and> st = None)
     \<and> ((\<exists>(pred, val)\<in>set (zip key vals). pred \<and> items val = []) \<longrightarrow>
           rs = [] \<and> st = Some RuntimeError)
     \<and> ((\<forall>(pred, val)\<in>set (zip key vals). pred \<longrightarrow> items val \<noteq> []) \<longrightarrow> st = None)"
proof -
  let ?rs = "product_lists (map2 axis key vals)"
  let ?st = "if \<exists>(pred, val)\<in>set (zip key vals). pred \<and> items val = [] then Some RuntimeError
             else None"
  have cg: "curr_gen vals key = Some (?rs, ?st)"
    using assms by (rule curr_gen_aligned)
  have len: "length ?rs
      = prod_list (map (\<lambda>(pred, val). length (items val)) (filter fst (zip key vals)))"
    by (simp only: length_product_lists length_axes)
  have none: "?rs = [vals] \<and> ?st = None" if "\<forall>pred\<in>set key. \<not> pred"
  proof -
    from that have "\<not> (\<exists>(pred, val)\<in>set (zip key vals). pred \<and> items val = [])"
      by (auto dest: set_zip_leftD)
    moreover have "?rs = [vals]"
      using assms(1) that by (simp add: axes_unselected product_singletons)
    ultimately show ?thesis by simp
  qed
  have empty: "?rs = [] \<and> ?st = Some RuntimeError"
    if e: "\<exists>(pred, val)\<in>set (zip key vals). pred \<and> items val = []"
  proof -
    from e obtain p v where pv: "(p, v) \<in> set (zip key vals)" "p" "items v = []" by auto
    then have "axis p v = []" by (simp add: axis_def)
    with pv(1) have "[] \<in> set (map2 axis key vals)" by force
    then have "?rs = []" by (rule product_lists_empty_axis)
    with e show ?thesis by simp
  qed
  have full: "?st = None" if "\<forall>(pred, val)\<in>set (zip key vals). pred \<longrightarrow> items val \<noteq> []"
    using that by auto
  from cg len none empty full show ?thesis by blast
qed

theorem expansion_cardinality_witness:
  "curr_gen [JList [JInt 1, JInt 2], JInt 5, JList [JInt 3, JInt 4, JInt 6]] [True, False, True]
     = Some ([[JInt 1, JInt 5, JInt 3], [JInt 1, JInt 5, JInt 4], [JInt 1, JInt 5, JInt 6],
              [JInt 2, JInt 5, JInt 3], [JInt 2, JInt 5, JInt 4], [JInt 2, JInt 5, JInt 6]], None)
   \<and> curr_gen [JList [JInt 1, JInt 2], JInt 5] [False, False]
     = Some ([[JList [JInt 1, JInt 2], JInt 5]], None)
   \<and> curr_gen [JList [JInt 1, JInt 2], JList []] [True, True] = Some ([], Some RuntimeError)"
proof -
  let ?vals = "[JList [JInt 1, JInt 2], JInt 5, JList [JInt 3, JInt 4, JInt 6]]"
  let ?key = "[True, False, True]"
  have "length ?key = length ?vals" by simp
  moreover have "\<forall>(pred, val)\<in>set (zip ?key ?vals). pred \<longrightarrow> isiterable val"
    by (simp add: isiterable_def)
  moreover have "\<forall>(pred, val)\<in>set (zip ?key ?vals). pred \<longrightarrow> items val \<noteq> []"
    by (simp add: items_def)
  ultimately obtain rs where rs: "curr_gen ?vals ?key = Some (rs, None)"
    and "length rs = prod_list (map (\<lambda>(pred, val). length (items val)) (filter fst (zip ?key ?vals)))"
    using expansion_cardinality [of ?key ?vals] by blast
  then have len: "length rs = 6" by (simp add: items_def)
  have a: "curr_gen ?vals ?key
     = Some ([[JInt 1, JInt 5, JInt 3], [JInt 1, JInt 5, JInt 4], [JInt 1, JInt 5, JInt 6],
              [JInt 2, JInt 5, JInt 3], [JInt 2, JInt 5, JInt 4], [JInt 2, JInt 5, JInt 6]], None)"
    using rs len by code_simp
  let ?vals2 = "[JList [JInt 1, JInt 2], JInt 5]"
  have "length [False, False] = length ?vals2" by simp
  moreover have "\<forall>(pred, val)\<in>set (zip [False, False] ?vals2). pred \<longrightarrow> isiterable val"
    by simp
  ultimately have b: "curr_gen ?vals2 [False, False] = Some ([?vals2], None)"
    using expansion_cardinality [of "[False, False]" ?vals2] by auto
  let ?vals3 = "[JList [JInt 1, JInt 2], JList []]"
  have "length [True, True] = length ?vals3" by simp
  moreover have "\<forall>(pred, val)\<in>set (zip [True, True] ?vals3). pred \<longrightarrow> isiterable val"
    by (simp add: isiterable_def)
  moreover have "\<exists>(pred, val)\<in>set (zip [True, True] ?vals3). pred \<and> items val = []"
    by (simp add: items_def)
  ultimately have c: "curr_gen ?vals3 [True, True] = Some ([], Some RuntimeError)"
    using expansion_cardinality [of "[True, True]" ?vals3] by blast
  from a b c show ?thesis by simp
qed

text \<open>
  C5.  For a mask aligned with the row whose selected cells are iterable, the rows
  yielded are, in this order, the n-ary cartesian product of the axes (the elements of
  a selected cell, the cell alone otherwise), the last axis varying fastest; every row
  has the length of the input row and holds each unselected cell itself at its
  position (such a cell need not be iterable).  A predicate selects through the mask
  of its values on the cells, and a mask given as a list of booleans through those
  booleans.
\<close>

theorem expansion_order:
  assumes "length key = length vals"
    and "\<forall>(pred, val)\<in>set (zip key vals). pred \<longrightarrow> isiterable val"
  shows "\<exists>st. curr_gen vals key = Some (product_lists (map2 axis key vals), st)
     \<and> ((\<forall>(pred, val)\<in>set (zip key vals). pred \<longrightarrow> items val \<noteq> []) \<longrightarrow> st = None)
     \<and> (\<forall>row\<in>set (product_lists (map2 axis key vals)).
          length row = length vals \<and> (\<forall>i<length vals. \<not> key ! i \<longrightarrow> row ! i = vals ! i))
     \<and> (key = map f vals \<longrightarrow>
          conditional_product vals (Callable f)
            = Inr (Some (product_lists (map2 axis key vals), st)))
     \<and> conditional_product vals (Object (JList (map JBool key)))
          = Inr (Some (product_lists (map2 axis key vals), st))"
proof -
  let ?st = "if \<exists>(pred, val)\<in>set (zip key vals). pred \<and> items val = [] then Some RuntimeError
             else None"
  have cg: "curr_gen vals key = Some (product_lists (map2 axis key vals), ?st)"
    using assms by (rule curr_gen_aligned)
  have full: "?st = None" if "\<forall>(pred, val)\<in>set (zip key vals). pred \<longrightarrow> items val \<noteq> []"
    using that by auto
  have fixed: "length row = length vals \<and> (\<forall>i<length vals. \<not> key ! i \<longrightarrow> row ! i = vals ! i)"
    if row: "row \<in> set (product_lists (map2 axis key vals))" for row
  proof (intro conjI allI impI)
    show "length row = length vals"
      using in_set_product_lists_length [OF row] assms(1) by simp
  next
    fix i assume i: "i < length vals" and sel: "\<not> key ! i"
    from product_lists_nth [OF row, of i] i assms(1)
    have "row ! i \<in> set (axis (key ! i) (vals ! i))" by simp
    with sel show "row ! i = vals ! i" by (simp add: axis_def)
  qed
  have "map truthy (map JBool key) = key" by (induction key) simp_all
  then have obj: "conditional_product vals (Object (JList (map JBool key)))
      = Inr (Some (product_lists (map2 axis key vals), ?st))"
    using cg by simp
  have call: "conditional_product vals (Callable f)
      = Inr (Some (product_lists (map2 axis key vals), ?st))" if "key = map f vals"
    using cg that by simp
  show ?thesis
    by (rule exI [of _ ?st]) (use cg full fixed obj call in blast)
qed

theorem expansion_order_witness:
  "curr_gen [JList [JInt 1, JInt 2], JInt 5, JList [JInt 3, JInt 4]] [True, False, True]
     = Some ([[JInt 1, JInt 5, JInt 3], [JInt 1, JInt 5, JInt 4],
              [JInt 2, JInt 5, JInt 3], [JInt 2, JInt 5, JInt 4]], None)
   \<and> conditional_product [JList [JInt 1, JInt 2], JInt 5, JList [JInt 3, JInt 4]] (Callable is_list)
     = Inr (Some ([[JInt 1, JInt 5, JInt 3], [JInt 1, JInt 5, JInt 4],
                   [JInt 2, JInt 5, JInt 3], [JInt 2, JInt 5, JInt 4]], None))
   \<and> conditional_product [JList [JInt 1, JInt 2], JInt 5, JList [JInt 3, JInt 4]]
       (Object (JList [JBool True, JBool False, JBool True]))
     = Inr (Some ([[JInt 1, JInt 5, JInt 3], [JInt 1, JInt 5, JInt 4],
                   [JInt 2, JInt 5, JInt 3], [JInt 2, JInt 5, JInt 4]], None))"
proof -
  let ?vals = "[JList [JInt 1, JInt 2], JInt 5, JList [JInt 3, JInt 4]]"
  let ?key = "[True, False, True]"
  have h1: "length ?key = length ?vals" by simp
  have h2: "\<forall>(pred, val)\<in>set (zip ?key ?vals). pred \<longrightarrow> isiterable val"
    by (simp add: isiterable_def)
  have h3: "\<forall>(pred, val)\<in>set (zip ?key ?vals). pred \<longrightarrow> items val \<noteq> []"
    by (simp add: items_def)
  have h4: "?key = map is_list ?vals" by (simp add: is_list_def)
  have p: "product_lists (map2 axis ?key ?vals)
     = [[JInt 1, JInt 5, JInt 3], [JInt 1, JInt 5, JInt 4],
        [JInt 2, JInt 5, JInt 3], [JInt 2, JInt 5, JInt 4]]"
    by (simp add: axis_def items_def)
  from expansion_order [OF h1 h2, of is_list] obtain st where
    "curr_gen ?vals ?key = Some (product_lists (map2 axis ?key ?vals), st)"
    "(\<forall>(pred, val)\<in>set (zip ?key ?vals). pred \<longrightarrow> items val \<noteq> []) \<longrightarrow> st = None"
    "?key = map is_list ?vals \<longrightarrow>
       conditional_product ?vals (Callable is_list)
         = Inr (Some (product_lists (map2 axis ?key ?vals), st))"
    "conditional_product ?vals (Object (JList (map JBool ?key)))
         = Inr (Some (product_lists (map2 axis ?key ?vals), st))"
    by blast
  with h3 h4 p show ?thesis
    by (simp del: conditional_product.simps)
qed

end
